theory Spec2Isabelle
  imports Complex_Main "HOL-Library.Word" "HOL-Library.Sublist"
begin

section \<open>The find-and-replace engine\<close>

text \<open>
  The repository's sources at hand hold the form that issues the request
  (\<^verbatim>\<open>FindReplaceView.svelte\<close>); the engine behind
  \<^verbatim>\<open>find_and_replace\<close> is not among them. The engine of this section is
  therefore written from the specification, component by component: ByteScanner,
  ReplacementPlanner, ResourceMutator, and the request that chains them.
\<close>

subsection \<open>Data model\<close>

text \<open>
  Modelled from the spec: the ResourceBuffer of section 3, an ordered sequence of
  bytes; \<open>byte list\<close> below.
\<close>

type_synonym byte = "8 word"

text \<open>
  Modelled from the spec: the Occurrence of section 3, a start offset and a length;
  offsets are zero-based byte offsets.
\<close>

record occurrence =
  start :: nat
  len :: nat

text \<open>
  Modelled from the spec: the reasons of a \<open>ValidationError\<close>, section 7.
\<close>

datatype validation_kind = EmptyPattern | Overflow

text \<open>
  Modelled from the spec: the reasons of a \<open>MutationError\<close>, section 7.
\<close>

datatype mutation_kind = IllegalPlan | CommitFailed

text \<open>
  Modelled from the spec: the error taxonomy of section 7.
\<close>

datatype error = ValidationError validation_kind | MutationError mutation_kind

text \<open>
  Modelled from the spec: the legality verdict of a plan, section 3: allowed, or denied
  with a reason.
\<close>

datatype verdict = Allowed | Denied validation_kind

text \<open>
  Modelled from the spec: the ReplacementPlan of section 3: the occurrences in order,
  the one ReplacementPattern, and the verdict.
\<close>

record replacement_plan =
  occurrences :: "occurrence list"
  replacement :: "byte list"
  legal :: verdict

text \<open>
  Modelled from the spec: the byte encoding of the find and replace texts, which the
  specification leaves to the implementation, with "raw byte-for-byte encoding of the
  input text" as the documented default. The planner below takes the encoding as its
  first argument; \<open>rawEncode\<close> is that default.
\<close>

definition rawEncode :: "string \<Rightarrow> byte list" where
  "rawEncode t = map of_char t"

subsection \<open>ByteScanner\<close>

text \<open>
  Modelled from the spec: \<open>findAll(buffer, pattern)\<close>, section 4.1. A linear
  left-to-right scan: at each position test for an exact byte match of the pattern; on a
  match record an Occurrence and move the cursor to the end of the match, otherwise move
  it by one byte. The specification requires a non-empty pattern and says nothing of an
  empty one; the scan below returns no occurrence for it (the planner rejects an empty
  pattern before it scans).
\<close>

function scan :: "byte list \<Rightarrow> byte list \<Rightarrow> nat \<Rightarrow> occurrence list" where
  "scan buffer pattern cursor =
     (if pattern = [] \<or> length buffer \<le> cursor then []
      else if take (length pattern) (drop cursor buffer) = pattern
        then \<lparr>start = cursor, len = length pattern\<rparr>
               # scan buffer pattern (cursor + length pattern)
        else scan buffer pattern (cursor + 1))"
  by pat_completeness auto
termination
  by (relation "measure (\<lambda>(buffer, pattern, cursor). length buffer - cursor)")
    (auto simp: neq_Nil_conv)

declare scan.simps [simp del]

text \<open>
  Modelled from the spec: \<open>findAll\<close> itself, the scan from the start of the
  buffer.
\<close>

definition findAll :: "byte list \<Rightarrow> byte list \<Rightarrow> occurrence list" where
  "findAll buffer pattern = scan buffer pattern 0"

text \<open>
  The pattern stands in the buffer at offset \<open>i\<close>: the property a recorded
  occurrence is checked against.
\<close>

definition occursAt :: "byte list \<Rightarrow> byte list \<Rightarrow> nat \<Rightarrow> bool" where
  "occursAt buffer pattern i \<longleftrightarrow>
     i + length pattern \<le> length buffer \<and> take (length pattern) (drop i buffer) = pattern"

subsection \<open>ReplacementPlanner\<close>

text \<open>
  Modelled from the spec: the derivation of the ReplacementPattern, section 4.2: the
  encoded replace text, with one zero byte appended when \<open>nullTerminate\<close> is true.
\<close>

definition replacementPattern :: "(string \<Rightarrow> byte list) \<Rightarrow> string \<Rightarrow> bool \<Rightarrow> byte list" where
  "replacementPattern enc replaceText nullTerminate =
     enc replaceText @ (if nullTerminate then [0] else [])"

text \<open>
  Modelled from the spec: \<open>plan(buffer, findText, replaceText, nullTerminate,
  allowOverflow)\<close>, section 4.2. The empty search pattern is rejected first; the scan
  follows; the length policy is applied per occurrence, so a request with no occurrence
  is legal whatever the lengths; a legal plan carries the occurrences, the resolved
  ReplacementPattern and the verdict "allowed".
\<close>

definition plan ::
  "(string \<Rightarrow> byte list) \<Rightarrow> byte list \<Rightarrow> string \<Rightarrow> string \<Rightarrow> bool \<Rightarrow> bool
     \<Rightarrow> error + replacement_plan" where
  "plan enc buffer findText replaceText nullTerminate allowOverflow =
     (let searchPattern = enc findText;
          rp = replacementPattern enc replaceText nullTerminate
      in if searchPattern = [] then Inl (ValidationError EmptyPattern)
         else
           let occs = findAll buffer searchPattern
           in if list_ex (\<lambda>oc. len oc < length rp \<and> \<not> allowOverflow) occs
              then Inl (ValidationError Overflow)
              else Inr \<lparr>occurrences = occs, replacement = rp, legal = Allowed\<rparr>)"

subsection \<open>ResourceMutator\<close>

text \<open>
  Modelled from the spec: the assembly of the output buffer, section 4.3: unaffected
  regions are copied verbatim and the ReplacementPattern is put in at each occurrence,
  in ascending order, with every offset read against the original buffer. \<open>pos\<close> is
  the offset in the original buffer up to which the output is already assembled.
\<close>

fun assemble :: "byte list \<Rightarrow> nat \<Rightarrow> occurrence list \<Rightarrow> byte list \<Rightarrow> byte list" where
  "assemble buffer pos [] rp = drop pos buffer"
| "assemble buffer pos (oc # ocs) rp =
     take (start oc - pos) (drop pos buffer) @ rp
       @ assemble buffer (start oc + len oc) ocs rp"

text \<open>
  Modelled from the spec: \<open>apply(buffer, plan)\<close>, section 4.3 (the name
  \<open>apply\<close> is taken in Isabelle). A plan that is not allowed is refused with
  \<open>MutationError(IllegalPlan)\<close>; the result is a new buffer.
\<close>

definition applyPlan :: "byte list \<Rightarrow> replacement_plan \<Rightarrow> error + byte list" where
  "applyPlan buffer p =
     (if legal p \<noteq> Allowed then Inl (MutationError IllegalPlan)
      else Inr (assemble buffer 0 (occurrences p) (replacement p)))"

text \<open>
  Modelled from the spec: one request, sections 4.3, 5 and 7: plan, then apply, then
  commit. The state is the resource's buffer; the result is the outcome together with
  the buffer the resource holds afterwards: the new one after a committed apply, the
  original one after any failure. \<open>commit\<close> is the owning resource's answer to the
  new buffer (true when it is stored).
\<close>

definition findReplace ::
  "(string \<Rightarrow> byte list) \<Rightarrow> (byte list \<Rightarrow> bool) \<Rightarrow> byte list \<Rightarrow> string \<Rightarrow> string \<Rightarrow> bool \<Rightarrow> bool
     \<Rightarrow> (error + unit) \<times> byte list" where
  "findReplace enc commit buffer findText replaceText nullTerminate allowOverflow =
     (case plan enc buffer findText replaceText nullTerminate allowOverflow of
        Inl e \<Rightarrow> (Inl e, buffer)
      | Inr p \<Rightarrow>
          (case applyPlan buffer p of
             Inl e \<Rightarrow> (Inl e, buffer)
           | Inr buffer' \<Rightarrow>
               if commit buffer' then (Inr (), buffer')
               else (Inl (MutationError CommitFailed), buffer)))"

section \<open>The form: \<^verbatim>\<open>FindReplaceView.svelte\<close>\<close>

subsection \<open>Values\<close>

text \<open>
  What \<^verbatim>\<open>JSON.parse\<close> returns: a JSON value. A number is the value of a
  double that is not NaN: a rational, or an infinity (which a literal out of range
  parses to). An object is the list of its own properties, one entry per key.
  JavaScript's \<^verbatim>\<open>undefined\<close> is not a JSON value; a variable that may hold it
  has an option type, with \<open>None\<close> for \<^verbatim>\<open>undefined\<close>.
\<close>

datatype js_number = Finite rat | PlusInfinity | MinusInfinity

datatype json =
  JNull
| JBool bool
| JNum js_number
| JStr string
| JArr "json list"
| JObj "(string \<times> json) list"

datatype js_exception = SyntaxError | TypeError

text \<open>
  What the awaited call \<^verbatim>\<open>$selectedResource.find_and_replace(...)\<close> throws when
  it fails: an \<^verbatim>\<open>Error\<close>, whose \<^verbatim>\<open>message\<close> is a string.
\<close>

datatype js_error = Error (message: string)

text \<open>
  How the awaited call ends: it resolves with some value (which the handler drops), it
  rejects with an error, or it never settles.
\<close>

datatype outcome = Resolved "json option" | Rejected js_error | Pending

text \<open>
  The member access \<^verbatim>\<open>.message\<close> on a parsed value. On \<^verbatim>\<open>null\<close>
  it throws a TypeError; on an object it is the property, or \<^verbatim>\<open>undefined\<close>
  when the object has none of that name; a boolean, a number, a string and an array
  have no such property.
\<close>

fun readMessage :: "json \<Rightarrow> js_exception + json option" where
  "readMessage JNull = Inl TypeError"
| "readMessage (JObj props) = Inr (map_of props ''message'')"
| "readMessage (JBool b) = Inr None"
| "readMessage (JNum n) = Inr None"
| "readMessage (JStr s) = Inr None"
| "readMessage (JArr vs) = Inr None"

text \<open>
  JavaScript's truthiness, as \<^verbatim>\<open>{#if errorMessage}\<close> tests it:
  \<^verbatim>\<open>undefined\<close>, \<^verbatim>\<open>null\<close>, \<^verbatim>\<open>false\<close>, zero and the empty
  string are falsy.
\<close>

fun truthy :: "json option \<Rightarrow> bool" where
  "truthy None = False"
| "truthy (Some JNull) = False"
| "truthy (Some (JBool b)) = b"
| "truthy (Some (JNum n)) = (n \<noteq> Finite 0)"
| "truthy (Some (JStr s)) = (s \<noteq> [])"
| "truthy (Some (JArr vs)) = True"
| "truthy (Some (JObj props)) = True"

subsection \<open>State\<close>

text \<open>
  What the handlers do to the world outside the component, in order: a call of
  \<^verbatim>\<open>find_and_replace\<close> on a resource with its four arguments, and a write to the
  store \<^verbatim>\<open>$selected\<close>.
\<close>

datatype ('sel, 'res) effect =
  EngineCall 'res "string option" "string option" bool bool
| SetSelected "'sel option"

text \<open>
  The component's variables (lines 128 to 133), the two stores it imports, and the
  effects so far. \<^verbatim>\<open>toFind\<close> and \<^verbatim>\<open>toReplace\<close> are
  \<^verbatim>\<open>undefined\<close> until the user types into their inputs.
\<close>

record ('view, 'sel, 'res) component =
  modifierView :: "'view option"
  toFind :: "string option"
  toReplace :: "string option"
  nullTerminated :: bool
  allowOverflow :: bool
  errorMessage :: "json option"
  selected :: "'sel option"
  selectedResource :: "'res option"
  trace :: "('sel, 'res) effect list"

text \<open>The component as it is created: the declarations of lines 128 to 133.\<close>

definition init ::
  "'view option \<Rightarrow> 'sel option \<Rightarrow> 'res option \<Rightarrow> ('view, 'sel, 'res) component" where
  "init view sel res =
     \<lparr>modifierView = view, toFind = None, toReplace = None,
      nullTerminated = True, allowOverflow = False, errorMessage = None,
      selected = sel, selectedResource = res, trace = []\<rparr>"

subsection \<open>Handlers\<close>

text \<open>\<^verbatim>\<open>refreshResource\<close>, lines 135 to 140.\<close>

definition refreshResource ::
  "('view, 'sel, 'res) component \<Rightarrow> ('view, 'sel, 'res) component" where
  "refreshResource st =
     (let originalSelected = selected st;
          st1 = st\<lparr>selected := None, trace := trace st @ [SetSelected None]\<rparr>
      in st1\<lparr>selected := originalSelected,
             trace := trace st1 @ [SetSelected originalSelected]\<rparr>)"

text \<open>
  The inner \<^verbatim>\<open>try\<close> of line 157: \<^verbatim>\<open>JSON.parse(err.message).message\<close>.
  \<open>parse\<close> is the platform's \<^verbatim>\<open>JSON.parse\<close>, \<open>None\<close> where it throws
  its SyntaxError.
\<close>

definition parsedMessage ::
  "(string \<Rightarrow> json option) \<Rightarrow> js_error \<Rightarrow> js_exception + json option" where
  "parsedMessage parse err =
     (case parse (message err) of
        None \<Rightarrow> Inl SyntaxError
      | Some v \<Rightarrow> readMessage v)"

text \<open>The \<^verbatim>\<open>catch (err)\<close> clause, lines 155 to 161.\<close>

definition catchError ::
  "(string \<Rightarrow> json option) \<Rightarrow> js_error \<Rightarrow> ('view, 'sel, 'res) component
     \<Rightarrow> ('view, 'sel, 'res) component" where
  "catchError parse err st =
     (case parsedMessage parse err of
        Inr m \<Rightarrow> st\<lparr>errorMessage := m\<rparr>
      | Inl _ \<Rightarrow> st\<lparr>errorMessage := Some (JStr (message err))\<rparr>)"

text \<open>
  \<^verbatim>\<open>findAndReplace\<close>, lines 142 to 162, as one step of the component; how the
  awaited call ends is the step's second argument.
\<close>

definition findAndReplace ::
  "(string \<Rightarrow> json option) \<Rightarrow> outcome \<Rightarrow> ('view, 'sel, 'res) component
     \<Rightarrow> ('view, 'sel, 'res) component" where
  "findAndReplace parse answer st =
     (case selectedResource st of
        None \<Rightarrow> refreshResource (st\<lparr>modifierView := None\<rparr>)
      | Some r \<Rightarrow>
          (let st1 = st\<lparr>trace := trace st @
                 [EngineCall r (toFind st) (toReplace st) (nullTerminated st)
                    (allowOverflow st)]\<rparr>
           in case answer of
                Resolved v \<Rightarrow> refreshResource (st1\<lparr>modifierView := None\<rparr>)
              | Rejected err \<Rightarrow> catchError parse err st1
              | Pending \<Rightarrow> st1))"

text \<open>
  The template, lines 165 to 200: what the user can do to the component, and whether
  the error paragraph of lines 189 to 194 is rendered.
\<close>

datatype event =
  InputFind string
| InputReplace string
| CheckNullTerminated bool
| CheckAllowOverflow bool
| ClickFindAndReplace outcome
| ClickCancel

fun handle ::
  "(string \<Rightarrow> json option) \<Rightarrow> ('view, 'sel, 'res) component \<Rightarrow> event
     \<Rightarrow> ('view, 'sel, 'res) component" where
  "handle parse st (InputFind s) = st\<lparr>toFind := Some s\<rparr>"
| "handle parse st (InputReplace s) = st\<lparr>toReplace := Some s\<rparr>"
| "handle parse st (CheckNullTerminated b) = st\<lparr>nullTerminated := b\<rparr>"
| "handle parse st (CheckAllowOverflow b) = st\<lparr>allowOverflow := b\<rparr>"
| "handle parse st (ClickFindAndReplace answer) = findAndReplace parse answer st"
| "handle parse st ClickCancel = st\<lparr>modifierView := None\<rparr>"

fun touchesCheckbox :: "event \<Rightarrow> bool" where
  "touchesCheckbox (CheckNullTerminated b) = True"
| "touchesCheckbox (CheckAllowOverflow b) = True"
| "touchesCheckbox ev = False"

definition showsError :: "('view, 'sel, 'res) component \<Rightarrow> bool" where
  "showsError st = truthy (errorMessage st)"

text \<open>
  The \<^verbatim>\<open>message\<close> property of a parsed value as a plain lookup:
  \<^verbatim>\<open>undefined\<close> where the value has no such property.
\<close>

definition messageProperty :: "json \<Rightarrow> json option" where
  "messageProperty v = (case v of JObj props \<Rightarrow> map_of props ''message'' | _ \<Rightarrow> None)"

section \<open>The scanner\<close>

text \<open>
  The scan is studied by computation induction: every fact below follows the three
  branches of \<open>scan\<close> (stop, match, no match).
\<close>

lemma scan_empty_pattern: "scan B [] c = []"
  by (subst scan.simps) simp

lemma scan_start_ge: "oc \<in> set (scan B P c) \<Longrightarrow> c \<le> start oc"
proof (induction B P c rule: scan.induct)
  case (1 B P c)
  show ?case
  proof (cases "P = [] \<or> length B \<le> c")
    case True
    with "1.prems" show ?thesis by (simp add: scan.simps)
  next
    case stop: False
    show ?thesis
    proof (cases "take (length P) (drop c B) = P")
      case True
      from "1.prems" stop True
      have "oc = \<lparr>start = c, len = length P\<rparr> \<or> oc \<in> set (scan B P (c + length P))"
        by (subst (asm) scan.simps) simp
      then show ?thesis
        using "1.IH"(1) stop True by auto
    next
      case False
      with "1.prems" stop have "oc \<in> set (scan B P (c + 1))"
        by (subst (asm) scan.simps) simp
      with "1.IH"(2) stop False show ?thesis by simp
    qed
  qed
qed

lemma scan_matches:
  "oc \<in> set (scan B P c) \<Longrightarrow> len oc = length P \<and> occursAt B P (start oc)"
proof (induction B P c rule: scan.induct)
  case (1 B P c)
  show ?case
  proof (cases "P = [] \<or> length B \<le> c")
    case True
    with "1.prems" show ?thesis by (simp add: scan.simps)
  next
    case stop: False
    show ?thesis
    proof (cases "take (length P) (drop c B) = P")
      case True
      then have "length (take (length P) (drop c B)) = length P"
        by simp
      then have "length P \<le> length B - c"
        by simp
      with stop True have here: "occursAt B P c"
        by (auto simp: occursAt_def)
      from "1.prems" stop True
      have "oc = \<lparr>start = c, len = length P\<rparr> \<or> oc \<in> set (scan B P (c + length P))"
        by (subst (asm) scan.simps) simp
      then show ?thesis
        using here "1.IH"(1) stop True by auto
    next
      case False
      with "1.prems" stop have "oc \<in> set (scan B P (c + 1))"
        by (subst (asm) scan.simps) simp
      with "1.IH"(2) stop False show ?thesis by simp
    qed
  qed
qed

lemma scan_disjoint:
  "sorted_wrt (\<lambda>a b. start a + len a \<le> start b) (scan B P c)"
proof (induction B P c rule: scan.induct)
  case (1 B P c)
  show ?case
  proof (cases "P = [] \<or> length B \<le> c")
    case True
    then show ?thesis by (simp add: scan.simps)
  next
    case stop: False
    show ?thesis
    proof (cases "take (length P) (drop c B) = P")
      case True
      have "scan B P c = \<lparr>start = c, len = length P\<rparr> # scan B P (c + length P)"
        using stop True by (subst scan.simps) simp
      moreover have "\<forall>b \<in> set (scan B P (c + length P)). c + length P \<le> start b"
        using scan_start_ge by blast
      ultimately show ?thesis
        using "1.IH"(1) stop True by simp
    next
      case False
      have "scan B P c = scan B P (c + 1)"
        using stop False by (subst scan.simps) simp
      then show ?thesis
        using "1.IH"(2) stop False by simp
    qed
  qed
qed

lemma scan_ascending:
  assumes "P \<noteq> []"
  shows "sorted_wrt (\<lambda>a b. start a < start b) (scan B P c)"
proof (rule sorted_wrt_mono_rel [where P = "\<lambda>a b. start a + len a \<le> start b"])
  fix a b :: occurrence
  assume "a \<in> set (scan B P c)" and gap: "start a + len a \<le> start b"
  then have "len a = length P" by (simp add: scan_matches)
  moreover from assms have "0 < length P" by simp
  ultimately show "start a < start b" using gap by linarith
next
  show "sorted_wrt (\<lambda>a b. start a + len a \<le> start b) (scan B P c)"
    by (rule scan_disjoint)
qed

text \<open>
  No position is passed over: an offset at which the pattern stands lies in the region
  of some recorded occurrence. So the scan finds something exactly when the pattern
  stands somewhere in the buffer.
\<close>

lemma scan_covers:
  "P \<noteq> [] \<Longrightarrow> occursAt B P i \<Longrightarrow> c \<le> i
    \<Longrightarrow> \<exists>oc \<in> set (scan B P c). start oc \<le> i \<and> i < start oc + len oc"
proof (induction B P c rule: scan.induct)
  case (1 B P c)
  from "1.prems" have inside: "\<not> (P = [] \<or> length B \<le> c)"
    by (cases P) (auto simp: occursAt_def)
  show ?case
  proof (cases "take (length P) (drop c B) = P")
    case True
    with inside
    have unfold: "scan B P c = \<lparr>start = c, len = length P\<rparr> # scan B P (c + length P)"
      by (subst scan.simps) simp
    show ?thesis
    proof (cases "i < c + length P")
      case True
      with "1.prems"(3) unfold show ?thesis by simp
    next
      case False
      then have "c + length P \<le> i" by simp
      from "1.IH"(1) [OF inside True "1.prems"(1,2) this] unfold
      show ?thesis by auto
    qed
  next
    case False
    with "1.prems" have "c \<noteq> i" by (auto simp: occursAt_def)
    with "1.prems" have "c + 1 \<le> i" by simp
    from "1.IH"(2) [OF inside False "1.prems"(1,2) this]
    have "\<exists>oc \<in> set (scan B P (c + 1)). start oc \<le> i \<and> i < start oc + len oc" .
    moreover from inside False have "scan B P c = scan B P (c + 1)"
      by (subst scan.simps) simp
    ultimately show ?thesis by simp
  qed
qed

lemma findAll_nonempty_iff:
  assumes "P \<noteq> []"
  shows "findAll B P \<noteq> [] \<longleftrightarrow> (\<exists>i. occursAt B P i)"
proof
  assume "findAll B P \<noteq> []"
  then obtain oc where "oc \<in> set (scan B P 0)"
    by (cases "scan B P 0") (auto simp: findAll_def)
  then show "\<exists>i. occursAt B P i" using scan_matches by blast
next
  assume "\<exists>i. occursAt B P i"
  then obtain i where "occursAt B P i" ..
  from scan_covers [OF assms this, of 0] show "findAll B P \<noteq> []"
    by (auto simp: findAll_def)
qed

lemma occursAt_sublist: "occursAt X P i \<Longrightarrow> sublist P X"
proof -
  assume "occursAt X P i"
  then have "take (length P) (drop i X) = P" by (simp add: occursAt_def)
  then have "X = take i X @ P @ drop (length P) (drop i X)"
    by (metis append_take_drop_id)
  then show ?thesis unfolding sublist_def by blast
qed

lemma findAll_empty_if_not_sublist: "\<not> sublist P X \<Longrightarrow> findAll X P = []"
proof (rule ccontr)
  assume ns: "\<not> sublist P X" and "findAll X P \<noteq> []"
  then obtain oc where "oc \<in> set (scan X P 0)"
    by (cases "scan X P 0") (auto simp: findAll_def)
  then have "occursAt X P (start oc)" by (simp add: scan_matches)
  with ns show False using occursAt_sublist by blast
qed

text \<open>
  These properties pin the scan down: a list of occurrences that lie at or
  after the cursor, do not overlap, are matches, and cover every offset at or after the
  cursor at which the pattern stands, is the list the scan returns.
\<close>

lemma scan_unique:
  "P \<noteq> [] \<Longrightarrow> sorted_wrt (\<lambda>a b. start a + len a \<le> start b) os
    \<Longrightarrow> \<forall>oc \<in> set os. c \<le> start oc \<and> len oc = length P \<and> occursAt B P (start oc)
    \<Longrightarrow> \<forall>i. c \<le> i \<and> occursAt B P i
          \<longrightarrow> (\<exists>oc \<in> set os. start oc \<le> i \<and> i < start oc + len oc)
    \<Longrightarrow> os = scan B P c"
proof (induction B P c arbitrary: os rule: scan.induct)
  case (1 B P c)
  note ne = \<open>P \<noteq> []\<close>
  note sorted = "1.prems"(2)
  note sound = "1.prems"(3)
  note cover = "1.prems"(4)
  show ?case
  proof (cases "length B \<le> c")
    case True
    have "os = []"
    proof (cases os)
      case (Cons x xs)
      with sound have "c \<le> start x" and "occursAt B P (start x)" by simp_all
      with True ne show ?thesis by (cases P) (auto simp: occursAt_def)
    qed simp
    with True show ?thesis by (subst scan.simps) simp
  next
    case False
    then have lt: "c < length B" by simp
    from ne False have go: "\<not> (P = [] \<or> length B \<le> c)" by simp
    show ?thesis
    proof (cases "take (length P) (drop c B) = P")
      case True
      then have "length (take (length P) (drop c B)) = length P" by simp
      then have "length P \<le> length B - c" by simp
      with lt True have here: "occursAt B P c" by (auto simp: occursAt_def)
      with cover obtain oc0 where oc0: "oc0 \<in> set os" "start oc0 \<le> c" by blast
      with sound have s0: "start oc0 = c" by force
      from oc0 obtain x xs where os: "os = x # xs" by (cases os) auto
      have x: "start x = c \<and> len x = length P"
      proof (cases "oc0 = x")
        case True
        with s0 sound os show ?thesis by simp
      next
        case False
        with oc0(1) os have "oc0 \<in> set xs" by simp
        with sorted os have "start x + len x \<le> start oc0" by simp
        moreover from sound os have "c \<le> start x" "len x = length P" by simp_all
        moreover from ne have "0 < length P" by simp
        ultimately show ?thesis using s0 by linarith
      qed
      then have xeq: "x = \<lparr>start = c, len = length P\<rparr>" by simp
      from sorted os have sorted': "sorted_wrt (\<lambda>a b. start a + len a \<le> start b) xs"
        and after: "\<forall>oc \<in> set xs. c + length P \<le> start oc"
        using x by simp_all
      from sound os after
      have sound': "\<forall>oc \<in> set xs. c + length P \<le> start oc \<and> len oc = length P
          \<and> occursAt B P (start oc)"
        by simp
      have cover': "\<forall>i. c + length P \<le> i \<and> occursAt B P i
          \<longrightarrow> (\<exists>oc \<in> set xs. start oc \<le> i \<and> i < start oc + len oc)"
      proof (intro allI impI)
        fix i assume i: "c + length P \<le> i \<and> occursAt B P i"
        with cover obtain oc where oc: "oc \<in> set os" "start oc \<le> i" "i < start oc + len oc"
          by (metis le_add1 le_trans)
        with i x have "oc \<noteq> x" by auto
        with oc os show "\<exists>oc \<in> set xs. start oc \<le> i \<and> i < start oc + len oc" by auto
      qed
      from "1.IH"(1) [OF go True ne sorted' sound' cover']
      have "xs = scan B P (c + length P)" .
      with os xeq go True show ?thesis by (subst scan.simps) simp
    next
      case nomatch: False
      have sound': "\<forall>oc \<in> set os. c + 1 \<le> start oc \<and> len oc = length P
          \<and> occursAt B P (start oc)"
      proof
        fix oc assume oc: "oc \<in> set os"
        with sound have "c \<le> start oc" and m: "occursAt B P (start oc)"
          and l: "len oc = length P" by simp_all
        moreover from m nomatch have "start oc \<noteq> c" by (auto simp: occursAt_def)
        ultimately show "c + 1 \<le> start oc \<and> len oc = length P \<and> occursAt B P (start oc)"
          by simp
      qed
      from cover have cover': "\<forall>i. c + 1 \<le> i \<and> occursAt B P i
          \<longrightarrow> (\<exists>oc \<in> set os. start oc \<le> i \<and> i < start oc + len oc)"
        by simp
      from "1.IH"(2) [OF go nomatch ne sorted sound' cover']
      have "os = scan B P (c + 1)" .
      with go nomatch show ?thesis by (subst scan.simps) simp
    qed
  qed
qed

text \<open>
  C3. For every buffer and every non-empty pattern, \<open>findAll\<close> returns its
  occurrences with strictly ascending start offsets; each occurrence ends before the
  next one starts, so none starts inside a region already matched; and each has the
  pattern's length, lies inside the buffer, and the buffer's bytes there are the
  pattern. The scan goes from left to right and passes over no match: every offset at
  which the pattern stands lies in the region of a recorded occurrence, so an offset
  before an occurrence at which the pattern stands lies in the region of an earlier
  one (each occurrence is the leftmost match at or after the end of the one before).
  No other list of occurrences has these properties.
\<close>

theorem findAll_ascending_disjoint_matching:
  assumes "P \<noteq> []"
  shows "sorted_wrt (\<lambda>a b. start a < start b) (findAll B P)
    \<and> sorted_wrt (\<lambda>a b. start a + len a \<le> start b) (findAll B P)
    \<and> (\<forall>oc \<in> set (findAll B P).
          len oc = length P \<and> start oc + len oc \<le> length B
          \<and> take (len oc) (drop (start oc) B) = P)
    \<and> (\<forall>i. occursAt B P i \<longrightarrow>
          (\<exists>oc \<in> set (findAll B P). start oc \<le> i \<and> i < start oc + len oc))
    \<and> (\<forall>oc \<in> set (findAll B P). \<forall>i. i < start oc \<and> occursAt B P i \<longrightarrow>
          (\<exists>oc' \<in> set (findAll B P).
             start oc' < start oc \<and> start oc' \<le> i \<and> i < start oc' + len oc'))
    \<and> (\<forall>os.
          sorted_wrt (\<lambda>a b. start a + len a \<le> start b) os
          \<and> (\<forall>oc \<in> set os. len oc = length P \<and> occursAt B P (start oc))
          \<and> (\<forall>i. occursAt B P i \<longrightarrow>
                (\<exists>oc \<in> set os. start oc \<le> i \<and> i < start oc + len oc))
          \<longrightarrow> os = findAll B P)"
proof (intro conjI)
  show "sorted_wrt (\<lambda>a b. start a < start b) (findAll B P)"
    unfolding findAll_def by (rule scan_ascending [OF assms])
  show "sorted_wrt (\<lambda>a b. start a + len a \<le> start b) (findAll B P)"
    unfolding findAll_def by (rule scan_disjoint)
  show "\<forall>oc \<in> set (findAll B P).
          len oc = length P \<and> start oc + len oc \<le> length B
          \<and> take (len oc) (drop (start oc) B) = P"
  proof
    fix oc assume "oc \<in> set (findAll B P)"
    then have m: "len oc = length P \<and> occursAt B P (start oc)"
      unfolding findAll_def by (rule scan_matches)
    then show "len oc = length P \<and> start oc + len oc \<le> length B
          \<and> take (len oc) (drop (start oc) B) = P"
      by (simp add: occursAt_def)
  qed
  show cover: "\<forall>i. occursAt B P i \<longrightarrow>
          (\<exists>oc \<in> set (findAll B P). start oc \<le> i \<and> i < start oc + len oc)"
    unfolding findAll_def using scan_covers [OF assms, of B _ 0] by simp
  show "\<forall>oc \<in> set (findAll B P). \<forall>i. i < start oc \<and> occursAt B P i \<longrightarrow>
          (\<exists>oc' \<in> set (findAll B P).
             start oc' < start oc \<and> start oc' \<le> i \<and> i < start oc' + len oc')"
  proof (intro ballI allI impI)
    fix oc i assume "oc \<in> set (findAll B P)" and i: "i < start oc \<and> occursAt B P i"
    with cover obtain oc' where "oc' \<in> set (findAll B P)"
      and "start oc' \<le> i" and "i < start oc' + len oc'"
      by blast
    with i show "\<exists>oc' \<in> set (findAll B P).
        start oc' < start oc \<and> start oc' \<le> i \<and> i < start oc' + len oc'"
      by (intro bexI [of _ oc']) simp_all
  qed
  show "\<forall>os.
          sorted_wrt (\<lambda>a b. start a + len a \<le> start b) os
          \<and> (\<forall>oc \<in> set os. len oc = length P \<and> occursAt B P (start oc))
          \<and> (\<forall>i. occursAt B P i \<longrightarrow>
                (\<exists>oc \<in> set os. start oc \<le> i \<and> i < start oc + len oc))
          \<longrightarrow> os = findAll B P"
  proof (intro allI impI)
    fix os :: "occurrence list"
    assume h: "sorted_wrt (\<lambda>a b. start a + len a \<le> start b) os
          \<and> (\<forall>oc \<in> set os. len oc = length P \<and> occursAt B P (start oc))
          \<and> (\<forall>i. occursAt B P i \<longrightarrow>
                (\<exists>oc \<in> set os. start oc \<le> i \<and> i < start oc + len oc))"
    then have "\<forall>oc \<in> set os. 0 \<le> start oc \<and> len oc = length P
        \<and> occursAt B P (start oc)"
      by blast
    moreover from h have "\<forall>i. 0 \<le> i \<and> occursAt B P i
        \<longrightarrow> (\<exists>oc \<in> set os. start oc \<le> i \<and> i < start oc + len oc)"
      by blast
    ultimately show "os = findAll B P"
      unfolding findAll_def using scan_unique [OF assms, of os 0 B] h by blast
  qed
qed

theorem findAll_witness:
  "rawEncode ''foo'' \<noteq> []
   \<and> findAll (rawEncode ''foobarfoo'') (rawEncode ''foo'')
       = [\<lparr>start = 0, len = 3\<rparr>, \<lparr>start = 6, len = 3\<rparr>]
   \<and> sorted_wrt (\<lambda>a b. start a < start b) (findAll (rawEncode ''foobarfoo'') (rawEncode ''foo''))
   \<and> sorted_wrt (\<lambda>a b. start a + len a \<le> start b)
       (findAll (rawEncode ''foobarfoo'') (rawEncode ''foo''))
   \<and> list_all (\<lambda>oc. len oc = length (rawEncode ''foo'')
         \<and> start oc + len oc \<le> length (rawEncode ''foobarfoo'')
         \<and> take (len oc) (drop (start oc) (rawEncode ''foobarfoo'')) = rawEncode ''foo'')
       (findAll (rawEncode ''foobarfoo'') (rawEncode ''foo''))
   \<and> occursAt (rawEncode ''foobarfoo'') (rawEncode ''foo'') 6
   \<and> list_ex (\<lambda>oc. start oc \<le> 6 \<and> 6 < start oc + len oc)
       (findAll (rawEncode ''foobarfoo'') (rawEncode ''foo''))"
proof -
  have ne: "rawEncode ''foo'' \<noteq> []" by (simp add: rawEncode_def)
  have at6: "occursAt (rawEncode ''foobarfoo'') (rawEncode ''foo'') 6"
    by (simp add: rawEncode_def occursAt_def)
  have found: "findAll (rawEncode ''foobarfoo'') (rawEncode ''foo'')
       = [\<lparr>start = 0, len = 3\<rparr>, \<lparr>start = 6, len = 3\<rparr>]"
    by (simp add: rawEncode_def findAll_def scan.simps)
  note inst = findAll_ascending_disjoint_matching [OF ne, of "rawEncode ''foobarfoo''"]
  from inst have "sorted_wrt (\<lambda>a b. start a < start b)
      (findAll (rawEncode ''foobarfoo'') (rawEncode ''foo''))"
    by (rule conjunct1)
  moreover from inst
  have "sorted_wrt (\<lambda>a b. start a + len a \<le> start b)
      (findAll (rawEncode ''foobarfoo'') (rawEncode ''foo''))"
    by (elim conjE)
  moreover from inst
  have "list_all (\<lambda>oc. len oc = length (rawEncode ''foo'')
         \<and> start oc + len oc \<le> length (rawEncode ''foobarfoo'')
         \<and> take (len oc) (drop (start oc) (rawEncode ''foobarfoo'')) = rawEncode ''foo'')
       (findAll (rawEncode ''foobarfoo'') (rawEncode ''foo''))"
    unfolding list_all_iff by (elim conjE)
  moreover from inst at6
  have "list_ex (\<lambda>oc. start oc \<le> 6 \<and> 6 < start oc + len oc)
       (findAll (rawEncode ''foobarfoo'') (rawEncode ''foo''))"
    unfolding list_ex_iff by blast
  ultimately show ?thesis using ne at6 found by (intro conjI)
qed

section \<open>The planner\<close>

text \<open>
  C1. When the scan of the buffer finds at least one occurrence of the search pattern,
  the replacement pattern is longer than the search pattern and overflow is not
  allowed, \<open>plan\<close> fails with \<open>ValidationError Overflow\<close>, and the request
  returns that error together with the buffer as it was.
\<close>

theorem plan_overflow_denied:
  assumes "findAll B (enc ft) \<noteq> []"
    and "length (enc ft) < length (replacementPattern enc rt nt)"
  shows "plan enc B ft rt nt False = Inl (ValidationError Overflow)
    \<and> findReplace enc commit B ft rt nt False = (Inl (ValidationError Overflow), B)"
proof -
  from assms(1) have ne: "enc ft \<noteq> []"
    by (auto simp: findAll_def scan_empty_pattern)
  from assms(1) obtain oc where oc: "oc \<in> set (findAll B (enc ft))"
    by (cases "findAll B (enc ft)") auto
  then have "len oc = length (enc ft)"
    by (simp add: findAll_def scan_matches)
  with assms(2) oc
  have "list_ex (\<lambda>oc. len oc < length (replacementPattern enc rt nt) \<and> \<not> False)
          (findAll B (enc ft))"
    unfolding list_ex_iff by (intro bexI [of _ oc]) simp_all
  with ne have "plan enc B ft rt nt False = Inl (ValidationError Overflow)"
    by (simp add: plan_def Let_def)
  then show ?thesis by (simp add: findReplace_def)
qed

theorem plan_overflow_denied_witness:
  "findAll (rawEncode ''foobarfoo'') (rawEncode ''bar'') \<noteq> []
   \<and> length (rawEncode ''bar'') < length (replacementPattern rawEncode ''longreplacement'' False)
   \<and> plan rawEncode (rawEncode ''foobarfoo'') ''bar'' ''longreplacement'' False False
       = Inl (ValidationError Overflow)
   \<and> findReplace rawEncode (\<lambda>b. True) (rawEncode ''foobarfoo'') ''bar'' ''longreplacement''
       False False
       = (Inl (ValidationError Overflow), rawEncode ''foobarfoo'')"
proof -
  have found: "findAll (rawEncode ''foobarfoo'') (rawEncode ''bar'') \<noteq> []"
    by (simp add: rawEncode_def findAll_def scan.simps)
  have longer: "length (rawEncode ''bar'')
      < length (replacementPattern rawEncode ''longreplacement'' False)"
    by (simp add: rawEncode_def replacementPattern_def)
  from plan_overflow_denied [OF found longer, of "\<lambda>b. True"] found longer
  show ?thesis by simp
qed

text \<open>
  C2. When the find text encodes to no byte at all, \<open>plan\<close> fails with
  \<open>ValidationError EmptyPattern\<close> whatever the buffer, the replace text and the
  two flags are, and the request returns that error together with the buffer as it was.
\<close>

theorem plan_empty_pattern:
  assumes "enc ft = []"
  shows "plan enc B ft rt nt ao = Inl (ValidationError EmptyPattern)
    \<and> findReplace enc commit B ft rt nt ao = (Inl (ValidationError EmptyPattern), B)"
  using assms by (simp add: plan_def findReplace_def)

theorem plan_empty_pattern_witness:
  "rawEncode '''' = []
   \<and> plan rawEncode (rawEncode ''foobarfoo'') '''' ''X'' True True
       = Inl (ValidationError EmptyPattern)
   \<and> findReplace rawEncode (\<lambda>b. True) (rawEncode ''foobarfoo'') '''' ''X'' True True
       = (Inl (ValidationError EmptyPattern), rawEncode ''foobarfoo'')"
proof -
  have empty: "rawEncode '''' = []" by (simp add: rawEncode_def)
  from plan_empty_pattern [where enc = rawEncode and ft = "''''"
      and B = "rawEncode ''foobarfoo''" and rt = "''X''" and nt = True and ao = True
      and commit = "\<lambda>b. True", OF empty] empty
  show ?thesis by simp
qed

text \<open>
  C4. The replacement pattern of the planner is the encoded replace text followed by
  exactly one zero byte when \<open>nullTerminate\<close> is true, and the encoded replace text
  itself when it is false. It is this pattern whose length decides the overflow denial,
  and this pattern that a legal plan carries.
\<close>

theorem planner_replacement_pattern:
  "replacementPattern enc rt nt = (if nt then enc rt @ [0] else enc rt)
   \<and> (plan enc B ft rt nt ao = Inl (ValidationError Overflow) \<longleftrightarrow>
        enc ft \<noteq> [] \<and> findAll B (enc ft) \<noteq> [] \<and> \<not> ao
        \<and> length (enc ft) < length (if nt then enc rt @ [0] else enc rt))
   \<and> (\<forall>p. plan enc B ft rt nt ao = Inr p \<longrightarrow>
        replacement p = (if nt then enc rt @ [0] else enc rt))"
proof (intro conjI allI impI)
  show rp: "replacementPattern enc rt nt = (if nt then enc rt @ [0] else enc rt)"
    by (simp add: replacementPattern_def)
  have lens: "list_ex (\<lambda>oc. len oc < n \<and> \<not> ao) (findAll B (enc ft))
    \<longleftrightarrow> findAll B (enc ft) \<noteq> [] \<and> \<not> ao \<and> length (enc ft) < n" for n
  proof -
    have "\<forall>oc \<in> set (findAll B (enc ft)). len oc = length (enc ft)"
      by (simp add: findAll_def scan_matches)
    then show ?thesis
      by (cases "findAll B (enc ft)") (auto simp: list_ex_iff)
  qed
  show "plan enc B ft rt nt ao = Inl (ValidationError Overflow) \<longleftrightarrow>
        enc ft \<noteq> [] \<and> findAll B (enc ft) \<noteq> [] \<and> \<not> ao
        \<and> length (enc ft) < length (if nt then enc rt @ [0] else enc rt)"
    unfolding plan_def Let_def lens rp by auto
  fix p assume "plan enc B ft rt nt ao = Inr p"
  then show "replacement p = (if nt then enc rt @ [0] else enc rt)"
    unfolding plan_def Let_def rp by (auto split: if_splits)
qed

theorem planner_replacement_pattern_witness:
  "plan rawEncode (rawEncode ''foobarfoo'') ''foo'' ''X'' True False
     = Inr \<lparr>occurrences = [\<lparr>start = 0, len = 3\<rparr>, \<lparr>start = 6, len = 3\<rparr>],
            replacement = [88, 0], legal = Allowed\<rparr>
   \<and> replacement \<lparr>occurrences = [\<lparr>start = 0, len = 3\<rparr>, \<lparr>start = 6, len = 3\<rparr>],
            replacement = [88, 0], legal = Allowed\<rparr> = rawEncode ''X'' @ [0]
   \<and> plan rawEncode (rawEncode ''foobarfoo'') ''fo'' ''X!'' True False
     = Inl (ValidationError Overflow)"
proof -
  have p: "plan rawEncode (rawEncode ''foobarfoo'') ''foo'' ''X'' True False
     = Inr \<lparr>occurrences = [\<lparr>start = 0, len = 3\<rparr>, \<lparr>start = 6, len = 3\<rparr>],
            replacement = [88, 0], legal = Allowed\<rparr>"
    by (simp add: plan_def rawEncode_def replacementPattern_def findAll_def scan.simps)
  have f: "findAll (rawEncode ''foobarfoo'') (rawEncode ''fo'') \<noteq> []"
    by (simp add: rawEncode_def findAll_def scan.simps)
  from planner_replacement_pattern
    [of rawEncode "''X''" True "rawEncode ''foobarfoo''" "''foo''" False] p
  have "replacement \<lparr>occurrences = [\<lparr>start = 0, len = 3\<rparr>, \<lparr>start = 6, len = 3\<rparr>],
            replacement = [88, 0], legal = Allowed\<rparr> = rawEncode ''X'' @ [0]"
    by simp
  moreover from planner_replacement_pattern
    [of rawEncode "''X!''" True "rawEncode ''foobarfoo''" "''fo''" False] f
  have "plan rawEncode (rawEncode ''foobarfoo'') ''fo'' ''X!'' True False
     = Inl (ValidationError Overflow)"
    by (simp add: rawEncode_def)
  ultimately show ?thesis using p by simp
qed

section \<open>The mutator\<close>

text \<open>
  The output assembled from the cursor on, along the scan: the original bytes from the
  cursor when the scan stops, the replacement followed by the rest after a match, the
  byte under the cursor followed by the rest otherwise.
\<close>

lemma assemble_skip:
  "c < length B \<Longrightarrow> \<forall>oc \<in> set ocs. c < start oc \<Longrightarrow>
     assemble B c ocs R = B ! c # assemble B (Suc c) ocs R"
proof (cases ocs)
  case Nil
  assume "c < length B"
  with Nil show ?thesis by (simp add: Cons_nth_drop_Suc)
next
  case (Cons oc rest)
  assume lt: "c < length B" and "\<forall>oc \<in> set ocs. c < start oc"
  with Cons have "c < start oc" by simp
  then obtain k where k: "start oc - c = Suc k" and k': "start oc - Suc c = k"
    by (cases "start oc - c") auto
  from lt have "drop c B = B ! c # drop (Suc c) B"
    by (simp add: Cons_nth_drop_Suc)
  with Cons k k' show ?thesis by simp
qed

lemma rebuilt_stop:
  "P = [] \<or> length B \<le> c \<Longrightarrow> assemble B c (scan B P c) R = drop c B"
  by (subst scan.simps) simp

lemma rebuilt_match:
  assumes "P \<noteq> []" "c < length B" "take (length P) (drop c B) = P"
  shows "assemble B c (scan B P c) R = R @ assemble B (c + length P) (scan B P (c + length P)) R"
  using assms by (subst scan.simps) simp

lemma rebuilt_skip:
  assumes "P \<noteq> []" "c < length B" "take (length P) (drop c B) \<noteq> P"
  shows "assemble B c (scan B P c) R = B ! c # assemble B (Suc c) (scan B P (Suc c)) R"
proof -
  from assms have eq: "scan B P c = scan B P (Suc c)"
    by (subst scan.simps) simp
  have "\<forall>oc \<in> set (scan B P (Suc c)). c < start oc"
  proof
    fix oc assume "oc \<in> set (scan B P (Suc c))"
    then have "Suc c \<le> start oc" by (rule scan_start_ge)
    then show "c < start oc" by simp
  qed
  with assms(2) show ?thesis
    unfolding eq by (rule assemble_skip)
qed

text \<open>
  A byte sequence with no byte of a non-empty replacement that begins the assembled
  output also begins the original buffer at the cursor.
\<close>

lemma rebuilt_prefix:
  assumes "R \<noteq> []"
  shows "set Q \<inter> set R = {} \<Longrightarrow> prefix Q (assemble B c (scan B P c) R)
    \<Longrightarrow> prefix Q (drop c B)"
proof (induction B P c arbitrary: Q rule: scan.induct)
  case (1 B P c)
  show ?case
  proof (cases "P = [] \<or> length B \<le> c")
    case True
    with "1.prems"(2) show ?thesis by (simp add: rebuilt_stop)
  next
    case False
    then have ne: "P \<noteq> []" and lt: "c < length B" by auto
    show ?thesis
    proof (cases "take (length P) (drop c B) = P")
      case True
      with "1.prems"(2) ne lt have "prefix Q (R @ assemble B (c + length P) (scan B P (c + length P)) R)"
        by (simp add: rebuilt_match)
      moreover from assms obtain r rs where "R = r # rs" by (cases R) auto
      ultimately have "Q = []"
        using "1.prems"(1) by (cases Q) auto
      then show ?thesis by simp
    next
      case nomatch: False
      with "1.prems"(2) ne lt
      have pre: "prefix Q (B ! c # assemble B (Suc c) (scan B P (Suc c)) R)"
        by (simp add: rebuilt_skip)
      from lt have unfold: "drop c B = B ! c # drop (Suc c) B"
        by (simp add: Cons_nth_drop_Suc)
      show ?thesis
      proof (cases Q)
        case Nil
        then show ?thesis by simp
      next
        case (Cons q qs)
        with pre have q: "q = B ! c"
          and qs: "prefix qs (assemble B (c + 1) (scan B P (c + 1)) R)"
          by simp_all
        from Cons "1.prems"(1) have "set qs \<inter> set R = {}" by auto
        with "1.IH"(2) [OF False nomatch _ qs] have "prefix qs (drop (c + 1) B)"
          by simp
        with Cons q unfold show ?thesis by simp
      qed
    qed
  qed
qed

lemma not_sublist_append_disjoint:
  assumes "P \<noteq> []" "set P \<inter> set R = {}" "\<not> sublist P X"
  shows "\<not> sublist P (R @ X)"
proof
  assume "sublist P (R @ X)"
  then consider "sublist P R" | "sublist P X"
    | xs1 xs2 where "P = xs1 @ xs2" "suffix xs1 R" "prefix xs2 X"
    unfolding sublist_append by blast
  then show False
  proof cases
    case 1
    then have "set P \<subseteq> set R" by (rule set_mono_sublist)
    with assms(1,2) show False by (cases P) auto
  next
    case 2
    with assms(3) show False by simp
  next
    case 3
    from 3(2) have "set xs1 \<subseteq> set R" by (rule set_mono_suffix)
    with 3(1) assms(2) have "xs1 = []" by (cases xs1) auto
    with 3(1,3) have "sublist P X" by (simp add: prefix_imp_sublist)
    with assms(3) show False by simp
  qed
qed

lemma rebuilt_no_match:
  "P \<noteq> [] \<Longrightarrow> R \<noteq> [] \<Longrightarrow> set P \<inter> set R = {}
    \<Longrightarrow> \<not> sublist P (assemble B c (scan B P c) R)"
proof (induction B P c rule: scan.induct)
  case (1 B P c)
  note ne = \<open>P \<noteq> []\<close>
  show ?case
  proof (cases "length B \<le> c")
    case True
    with ne show ?thesis by (simp add: rebuilt_stop)
  next
    case False
    then have lt: "c < length B" by simp
    from ne False have go: "\<not> (P = [] \<or> length B \<le> c)" by simp
    show ?thesis
    proof (cases "take (length P) (drop c B) = P")
      case True
      from "1.IH"(1) [OF go True "1.prems"]
      have "\<not> sublist P (assemble B (c + length P) (scan B P (c + length P)) R)" .
      with ne "1.prems"(3)
      have "\<not> sublist P (R @ assemble B (c + length P) (scan B P (c + length P)) R)"
        by (rule not_sublist_append_disjoint)
      with ne lt True show ?thesis by (simp add: rebuilt_match)
    next
      case nomatch: False
      from "1.IH"(2) [OF go nomatch "1.prems"]
      have rest: "\<not> sublist P (assemble B (Suc c) (scan B P (Suc c)) R)" by simp
      have "\<not> prefix P (assemble B c (scan B P c) R)"
      proof
        assume "prefix P (assemble B c (scan B P c) R)"
        with "1.prems"(2,3) have "prefix P (drop c B)"
          using rebuilt_prefix by blast
        then have "take (length P) (drop c B) = P"
          by (auto simp: prefix_def)
        with nomatch show False by simp
      qed
      with rest ne lt nomatch show ?thesis
        by (simp add: rebuilt_skip sublist_Cons_right)
    qed
  qed
qed

text \<open>
  C5, as amended. When a legal plan is applied, the replacement pattern is not empty,
  and the search and replacement patterns have no byte in common, a search of the new
  buffer for the original find text yields no occurrence.
\<close>

theorem replaced_buffer_has_no_match:
  assumes "plan enc B ft rt nt ao = Inr p"
    and "applyPlan B p = Inr B'"
    and "replacement p \<noteq> []"
    and "set (enc ft) \<inter> set (replacement p) = {}"
  shows "findAll B' (enc ft) = []"
proof -
  from assms(1) have ne: "enc ft \<noteq> []"
    and occs: "occurrences p = findAll B (enc ft)"
    by (auto simp: plan_def Let_def split: if_splits)
  from assms(2) have "B' = assemble B 0 (occurrences p) (replacement p)"
    by (auto simp: applyPlan_def split: if_splits)
  with occs have "B' = assemble B 0 (scan B (enc ft) 0) (replacement p)"
    by (simp add: findAll_def)
  with ne assms(3,4) have "\<not> sublist (enc ft) B'"
    by (simp add: rebuilt_no_match)
  then show ?thesis by (rule findAll_empty_if_not_sublist)
qed

theorem replaced_buffer_has_no_match_witness:
  "plan rawEncode (rawEncode ''foobarfoo'') ''foo'' ''X'' False False
     = Inr \<lparr>occurrences = [\<lparr>start = 0, len = 3\<rparr>, \<lparr>start = 6, len = 3\<rparr>],
            replacement = [88], legal = Allowed\<rparr>
   \<and> applyPlan (rawEncode ''foobarfoo'')
       \<lparr>occurrences = [\<lparr>start = 0, len = 3\<rparr>, \<lparr>start = 6, len = 3\<rparr>],
            replacement = [88], legal = Allowed\<rparr> = Inr (rawEncode ''XbarX'')
   \<and> findAll (rawEncode ''XbarX'') (rawEncode ''foo'') = []"
proof -
  let ?p = "\<lparr>occurrences = [\<lparr>start = 0, len = 3\<rparr>, \<lparr>start = 6, len = 3\<rparr>],
            replacement = [88], legal = Allowed\<rparr>"
  have p: "plan rawEncode (rawEncode ''foobarfoo'') ''foo'' ''X'' False False = Inr ?p"
    by (simp add: plan_def rawEncode_def replacementPattern_def findAll_def scan.simps)
  have a: "applyPlan (rawEncode ''foobarfoo'') ?p = Inr (rawEncode ''XbarX'')"
    by (simp add: applyPlan_def rawEncode_def)
  have r: "replacement ?p \<noteq> []" by simp
  have d: "set (rawEncode ''foo'') \<inter> set (replacement ?p) = {}"
    by (simp add: rawEncode_def)
  from replaced_buffer_has_no_match [OF p a r d] p a show ?thesis by simp
qed

text \<open>
  C5 as stated also covers the empty replacement pattern, which has no byte in common
  with any search pattern. There it fails: deleting \<open>ab\<close> from \<open>aabb\<close> leaves
  \<open>ab\<close>.
\<close>

theorem deletion_reintroduces_pattern:
  "plan rawEncode (rawEncode ''aabb'') ''ab'' '''' False False
     = Inr \<lparr>occurrences = [\<lparr>start = 1, len = 2\<rparr>], replacement = [], legal = Allowed\<rparr>
   \<and> applyPlan (rawEncode ''aabb'')
        \<lparr>occurrences = [\<lparr>start = 1, len = 2\<rparr>], replacement = [], legal = Allowed\<rparr>
     = Inr (rawEncode ''ab'')
   \<and> set (rawEncode ''ab'') \<inter> set ([] :: byte list) = {}
   \<and> findAll (rawEncode ''ab'') (rawEncode ''ab'') = [\<lparr>start = 0, len = 2\<rparr>]"
  by (simp add: plan_def rawEncode_def replacementPattern_def findAll_def scan.simps
      applyPlan_def)

section \<open>The specification's scenarios\<close>

text \<open>
  Two scenarios of the specification's section 8, run on the model with the raw
  encoding: replacing \<open>foo\<close> by \<open>X\<close> in \<open>foobarfoo\<close> finds the offsets
  0 and 6 and gives \<open>XbarX\<close>; replacing \<open>bar\<close> by \<open>longreplacement\<close>
  with overflow allowed gives \<open>foolongreplacementfoo\<close>.
\<close>

lemma scenario_replace:
  "findAll (rawEncode ''foobarfoo'') (rawEncode ''foo'')
     = [\<lparr>start = 0, len = 3\<rparr>, \<lparr>start = 6, len = 3\<rparr>]
   \<and> findReplace rawEncode (\<lambda>b. True) (rawEncode ''foobarfoo'') ''foo'' ''X'' False False
     = (Inr (), rawEncode ''XbarX'')"
  by (simp add: findReplace_def plan_def applyPlan_def replacementPattern_def rawEncode_def
      findAll_def scan.simps)

lemma scenario_overflow_allowed:
  "findReplace rawEncode (\<lambda>b. True) (rawEncode ''foobarfoo'') ''bar'' ''longreplacement''
     False True
     = (Inr (), rawEncode ''foolongreplacementfoo'')"
  by (simp add: findReplace_def plan_def applyPlan_def replacementPattern_def rawEncode_def
      findAll_def scan.simps)

section \<open>The form\<close>

lemma refreshResource_fields [simp]:
  "modifierView (refreshResource st) = modifierView st"
  "toFind (refreshResource st) = toFind st"
  "toReplace (refreshResource st) = toReplace st"
  "nullTerminated (refreshResource st) = nullTerminated st"
  "allowOverflow (refreshResource st) = allowOverflow st"
  "errorMessage (refreshResource st) = errorMessage st"
  "selected (refreshResource st) = selected st"
  "selectedResource (refreshResource st) = selectedResource st"
  "trace (refreshResource st) = trace st @ [SetSelected None, SetSelected (selected st)]"
  by (simp_all add: refreshResource_def Let_def)

lemma catchError_fields [simp]:
  "modifierView (catchError parse err st) = modifierView st"
  "toFind (catchError parse err st) = toFind st"
  "toReplace (catchError parse err st) = toReplace st"
  "nullTerminated (catchError parse err st) = nullTerminated st"
  "allowOverflow (catchError parse err st) = allowOverflow st"
  "selected (catchError parse err st) = selected st"
  "selectedResource (catchError parse err st) = selectedResource st"
  "trace (catchError parse err st) = trace st"
  by (simp_all add: catchError_def split: sum.splits)

lemma catchError_errorMessage:
  "errorMessage (catchError parse err st) =
     (case parsedMessage parse err of Inr m \<Rightarrow> m | Inl e \<Rightarrow> Some (JStr (message err)))"
  by (simp add: catchError_def split: sum.splits)

lemma findAndReplace_keeps:
  "nullTerminated (findAndReplace parse answer st) = nullTerminated st"
  "allowOverflow (findAndReplace parse answer st) = allowOverflow st"
  "selectedResource (findAndReplace parse answer st) = selectedResource st"
  by (simp_all add: findAndReplace_def Let_def split: option.splits outcome.splits)

lemma handle_keeps:
  "\<not> touchesCheckbox ev \<Longrightarrow> nullTerminated (handle parse st ev) = nullTerminated st"
  "\<not> touchesCheckbox ev \<Longrightarrow> allowOverflow (handle parse st ev) = allowOverflow st"
  "selectedResource (handle parse st ev) = selectedResource st"
  by (cases ev; simp add: findAndReplace_keeps)+

lemma run_keeps:
  "\<forall>ev \<in> set evs. \<not> touchesCheckbox ev \<Longrightarrow>
     nullTerminated (foldl (handle parse) st evs) = nullTerminated st
     \<and> allowOverflow (foldl (handle parse) st evs) = allowOverflow st"
  by (induction evs arbitrary: st) (simp_all add: handle_keeps)

lemma run_selectedResource:
  "selectedResource (foldl (handle parse) st evs) = selectedResource st"
  by (induction evs arbitrary: st) (simp_all add: handle_keeps)

lemma findAndReplace_trace:
  "selectedResource st = Some r \<Longrightarrow>
   trace (findAndReplace parse answer st) =
     trace st @ EngineCall r (toFind st) (toReplace st) (nullTerminated st) (allowOverflow st)
       # (case answer of Resolved v \<Rightarrow> [SetSelected None, SetSelected (selected st)]
          | Rejected err \<Rightarrow> [] | Pending \<Rightarrow> [])"
  by (simp add: findAndReplace_def Let_def split: outcome.splits)

text \<open>
  C6. The component is created with \<open>nullTerminated\<close> true and
  \<open>allowOverflow\<close> false. After any events that touch neither checkbox, a click on
  Find and Replace with a resource selected calls the engine with the two texts as they
  then are, \<open>True\<close> for the null-termination flag and \<open>False\<close> for the overflow
  flag.
\<close>

theorem flags_default_reach_engine:
  assumes "\<forall>ev \<in> set evs. \<not> touchesCheckbox ev"
  shows "nullTerminated (init view sel (Some r)) = True
    \<and> allowOverflow (init view sel (Some r)) = False
    \<and> (let st = foldl (handle parse) (init view sel (Some r)) evs
       in trace (findAndReplace parse answer st) =
            trace st @ EngineCall r (toFind st) (toReplace st) True False
              # (case answer of Resolved v \<Rightarrow> [SetSelected None, SetSelected (selected st)]
                 | Rejected err \<Rightarrow> [] | Pending \<Rightarrow> []))"
proof -
  let ?st = "foldl (handle parse) (init view sel (Some r)) evs"
  have d: "nullTerminated (init view sel (Some r)) = True"
    "allowOverflow (init view sel (Some r)) = False"
    "selectedResource (init view sel (Some r)) = Some r"
    by (simp_all add: init_def)
  from run_keeps [OF assms, of parse "init view sel (Some r)"] d
  have flags: "nullTerminated ?st = True" "allowOverflow ?st = False" by simp_all
  have "selectedResource ?st = Some r"
    by (simp add: run_selectedResource d)
  from findAndReplace_trace [OF this, of parse answer] flags d
  show ?thesis by (simp add: Let_def)
qed

theorem flags_default_reach_engine_witness:
  "list_all (\<lambda>ev. \<not> touchesCheckbox ev) [InputFind ''foo'', InputReplace ''X'']
   \<and> trace (findAndReplace Map.empty (Resolved None)
        (foldl (handle Map.empty) (init (Some ()) (Some (7::nat)) (Some (7::nat)))
           [InputFind ''foo'', InputReplace ''X'']))
     = [EngineCall 7 (Some ''foo'') (Some ''X'') True False,
        SetSelected None, SetSelected (Some 7)]"
proof -
  have untouched:
    "\<forall>ev \<in> set [InputFind ''foo'', InputReplace ''X'']. \<not> touchesCheckbox ev"
    by simp
  from flags_default_reach_engine [OF untouched, of "Some ()" "Some (7::nat)" "7::nat"
      Map.empty "Resolved None"]
  show ?thesis by (simp add: init_def)
qed

text \<open>
  C8. When the engine call resolves, whatever value it resolves with, the handler has
  made that one call, sets \<open>modifierView\<close> to undefined and runs
  \<open>refreshResource\<close> (the store \<open>$selected\<close> is written undefined and then its
  former value); \<open>errorMessage\<close> is left as it was.
\<close>

theorem success_closes_and_refreshes:
  assumes "selectedResource st = Some r"
  shows "modifierView (findAndReplace parse (Resolved v) st) = None
    \<and> trace (findAndReplace parse (Resolved v) st) =
        trace st @ [EngineCall r (toFind st) (toReplace st) (nullTerminated st) (allowOverflow st),
                    SetSelected None, SetSelected (selected st)]
    \<and> selected (findAndReplace parse (Resolved v) st) = selected st
    \<and> errorMessage (findAndReplace parse (Resolved v) st) = errorMessage st"
  using assms by (simp add: findAndReplace_def Let_def)

theorem success_closes_and_refreshes_witness:
  "selectedResource (init (Some ()) (Some (7::nat)) (Some (7::nat))) = Some 7
   \<and> modifierView (findAndReplace Map.empty (Resolved None)
        (init (Some ()) (Some (7::nat)) (Some (7::nat)))) = None
   \<and> trace (findAndReplace Map.empty (Resolved None)
        (init (Some ()) (Some (7::nat)) (Some (7::nat))))
     = [EngineCall 7 None None True False, SetSelected None, SetSelected (Some 7)]
   \<and> errorMessage (findAndReplace Map.empty (Resolved None)
        (init (Some ()) (Some (7::nat)) (Some (7::nat)))) = None"
proof -
  have res: "selectedResource (init (Some ()) (Some (7::nat)) (Some (7::nat))) = Some 7"
    by (simp add: init_def)
  from success_closes_and_refreshes [OF res, of Map.empty None] res
  show ?thesis by (simp add: init_def)
qed

text \<open>
  C9. When no resource is selected, the handler makes no engine call; it sets
  \<open>modifierView\<close> to undefined and runs \<open>refreshResource\<close>, and leaves
  \<open>errorMessage\<close> as it was.
\<close>

theorem no_resource_closes_and_refreshes:
  assumes "selectedResource st = None"
  shows "trace (findAndReplace parse answer st) =
        trace st @ [SetSelected None, SetSelected (selected st)]
    \<and> modifierView (findAndReplace parse answer st) = None
    \<and> selected (findAndReplace parse answer st) = selected st
    \<and> errorMessage (findAndReplace parse answer st) = errorMessage st"
  using assms by (simp add: findAndReplace_def)

theorem no_resource_closes_and_refreshes_witness:
  "selectedResource (init (Some ()) (Some (7::nat)) (None :: nat option)) = None
   \<and> trace (findAndReplace Map.empty Pending
        (init (Some ()) (Some (7::nat)) (None :: nat option)))
     = [SetSelected None, SetSelected (Some 7)]
   \<and> modifierView (findAndReplace Map.empty Pending
        (init (Some ()) (Some (7::nat)) (None :: nat option))) = None
   \<and> errorMessage (findAndReplace Map.empty Pending
        (init (Some ()) (Some (7::nat)) (None :: nat option))) = None"
proof -
  have res: "selectedResource (init (Some ()) (Some (7::nat)) (None :: nat option)) = None"
    by (simp add: init_def)
  from no_resource_closes_and_refreshes [OF res, of Map.empty Pending] res
  show ?thesis by (simp add: init_def)
qed

lemma rejected_errorMessage:
  "selectedResource st = Some r \<Longrightarrow>
   errorMessage (findAndReplace parse (Rejected err) st) =
     (case parsedMessage parse err of Inr m \<Rightarrow> m | Inl e \<Rightarrow> Some (JStr (message err)))"
  by (simp add: findAndReplace_def Let_def catchError_errorMessage)

lemma readMessage_non_null: "v \<noteq> JNull \<Longrightarrow> readMessage v = Inr (messageProperty v)"
  by (cases v) (simp_all add: messageProperty_def)

text \<open>
  C7, as amended. When the engine call fails, the handler parses the error's message.
  When the parse yields a value other than \<open>null\<close>, \<open>errorMessage\<close> becomes that
  value's \<open>message\<close> property. When the parse fails, and also when it yields
  \<open>null\<close> (whose \<open>message\<close> cannot be read), \<open>errorMessage\<close> becomes the raw
  message text.
\<close>

theorem error_display_parse_then_raw:
  assumes "selectedResource st = Some r"
  shows "(\<forall>v. parse (message err) = Some v \<and> v \<noteq> JNull \<longrightarrow>
           errorMessage (findAndReplace parse (Rejected err) st) = messageProperty v)
    \<and> (parse (message err) = None \<or> parse (message err) = Some JNull \<longrightarrow>
           errorMessage (findAndReplace parse (Rejected err) st) = Some (JStr (message err)))
    \<and> (isl (parsedMessage parse err) \<longleftrightarrow>
           parse (message err) = None \<or> parse (message err) = Some JNull)"
proof (intro conjI allI impI)
  fix v assume "parse (message err) = Some v \<and> v \<noteq> JNull"
  with assms show "errorMessage (findAndReplace parse (Rejected err) st) = messageProperty v"
    by (simp add: rejected_errorMessage parsedMessage_def readMessage_non_null)
next
  assume "parse (message err) = None \<or> parse (message err) = Some JNull"
  with assms
  show "errorMessage (findAndReplace parse (Rejected err) st) = Some (JStr (message err))"
    by (auto simp: rejected_errorMessage parsedMessage_def)
next
  show "isl (parsedMessage parse err) \<longleftrightarrow>
      parse (message err) = None \<or> parse (message err) = Some JNull"
  proof (cases "parse (message err)")
    case None
    then show ?thesis by (simp add: parsedMessage_def)
  next
    case (Some v)
    then show ?thesis by (cases v) (simp_all add: parsedMessage_def)
  qed
qed

theorem error_display_parse_then_raw_witness:
  "selectedResource (init (Some ()) (Some (7::nat)) (Some (7::nat))) = Some 7
   \<and> errorMessage (findAndReplace
        [''{\"message\": \"boom\"}'' \<mapsto> JObj [(''message'', JStr ''boom'')]]
        (Rejected (Error ''{\"message\": \"boom\"}''))
        (init (Some ()) (Some (7::nat)) (Some (7::nat)))) = Some (JStr ''boom'')
   \<and> errorMessage (findAndReplace
        [''{\"message\": \"boom\"}'' \<mapsto> JObj [(''message'', JStr ''boom'')]]
        (Rejected (Error ''Failed to fetch''))
        (init (Some ()) (Some (7::nat)) (Some (7::nat)))) = Some (JStr ''Failed to fetch'')"
proof -
  let ?parse = "[''{\"message\": \"boom\"}'' \<mapsto> JObj [(''message'', JStr ''boom'')]]"
  let ?st = "init (Some ()) (Some (7::nat)) (Some (7::nat))"
  have res: "selectedResource ?st = Some 7"
    by (simp add: init_def)
  from error_display_parse_then_raw [OF res, of ?parse "Error ''{\"message\": \"boom\"}''"]
  have "errorMessage (findAndReplace ?parse (Rejected (Error ''{\"message\": \"boom\"}'')) ?st)
      = Some (JStr ''boom'')"
    by (simp add: messageProperty_def)
  moreover
  from error_display_parse_then_raw [OF res, of ?parse "Error ''Failed to fetch''"]
  have "errorMessage (findAndReplace ?parse (Rejected (Error ''Failed to fetch'')) ?st)
      = Some (JStr ''Failed to fetch'')"
    by simp
  ultimately show ?thesis using res by simp
qed

text \<open>
  C7 as stated has the raw text displayed only if the parse fails. The text \<open>null\<close>
  is JSON and parses to \<open>null\<close>; reading \<open>message\<close> of it throws, the same
  \<open>catch\<close> takes it, and the raw text is what is displayed.
\<close>

theorem null_message_falls_back:
  "[''null'' \<mapsto> JNull] (message (Error ''null'')) = Some JNull
   \<and> parsedMessage [''null'' \<mapsto> JNull] (Error ''null'') = Inl TypeError
   \<and> errorMessage (findAndReplace [''null'' \<mapsto> JNull] (Rejected (Error ''null''))
        (init (Some ()) (Some (7::nat)) (Some (7::nat)))) = Some (JStr ''null'')"
  by (simp add: findAndReplace_def catchError_def parsedMessage_def init_def)

text \<open>
  C10, as amended. When the engine call fails with a message that parses to a value
  other than \<open>null\<close>, \<open>errorMessage\<close> becomes exactly that value's
  \<open>message\<close> property; when the value has no such property, \<open>errorMessage\<close> is
  undefined and the error paragraph is not rendered.
\<close>

theorem parsed_message_displayed:
  assumes "selectedResource st = Some r"
    and "parse (message err) = Some v"
    and "v \<noteq> JNull"
  shows "errorMessage (findAndReplace parse (Rejected err) st) = messageProperty v
    \<and> (messageProperty v = None \<longrightarrow>
          errorMessage (findAndReplace parse (Rejected err) st) = None
          \<and> \<not> showsError (findAndReplace parse (Rejected err) st))"
  using assms
  by (simp add: rejected_errorMessage parsedMessage_def readMessage_non_null showsError_def)

theorem parsed_message_displayed_witness:
  "selectedResource (init (Some ()) (Some (7::nat)) (Some (7::nat))) = Some 7
   \<and> [''{}'' \<mapsto> JObj []] (message (Error ''{}'')) = Some (JObj [])
   \<and> JObj [] \<noteq> JNull
   \<and> messageProperty (JObj []) = None
   \<and> errorMessage (findAndReplace [''{}'' \<mapsto> JObj []] (Rejected (Error ''{}''))
        (init (Some ()) (Some (7::nat)) (Some (7::nat)))) = None
   \<and> \<not> showsError (findAndReplace [''{}'' \<mapsto> JObj []] (Rejected (Error ''{}''))
        (init (Some ()) (Some (7::nat)) (Some (7::nat))))"
proof -
  let ?st = "init (Some ()) (Some (7::nat)) (Some (7::nat))"
  have res: "selectedResource ?st = Some 7"
    by (simp add: init_def)
  have parsed: "[''{}'' \<mapsto> JObj []] (message (Error ''{}'')) = Some (JObj [])"
    by simp
  have obj: "JObj [] \<noteq> JNull" by simp
  have absent: "messageProperty (JObj []) = None"
    by (simp add: messageProperty_def)
  from parsed_message_displayed [where parse = "[''{}'' \<mapsto> JObj []]"
      and err = "Error ''{}''" and v = "JObj []", OF res parsed obj] res parsed absent
  show ?thesis by simp
qed

text \<open>
  C10 as stated covers every message that is valid JSON, so also the text \<open>null\<close>.
  There the displayed value is not the (absent) \<open>message\<close> property: the raw text
  is displayed, and the error paragraph is rendered.
\<close>

theorem null_message_is_displayed_raw:
  "[''null'' \<mapsto> JNull] (message (Error ''null'')) = Some JNull
   \<and> messageProperty JNull = None
   \<and> errorMessage (findAndReplace [''null'' \<mapsto> JNull] (Rejected (Error ''null''))
        (init (Some ()) (Some (7::nat)) (Some (7::nat)))) \<noteq> messageProperty JNull
   \<and> showsError (findAndReplace [''null'' \<mapsto> JNull] (Rejected (Error ''null''))
        (init (Some ()) (Some (7::nat)) (Some (7::nat))))"
  by (simp add: findAndReplace_def catchError_def parsedMessage_def init_def
      messageProperty_def showsError_def)

end
